theory Spec2Isabelle
  imports Main
begin

section \<open>Data model (types.ts)\<close>

datatype FlowStatus = IDLE | GENERATING | UPSCALING | COMPLETED | ERROR

datatype AspectRatio = AR_16_9 | AR_9_16

text \<open>
  A step of the flow. The optional fields \<^verbatim>\<open>isUpscaled?\<close> and \<^verbatim>\<open>error?\<close> are
  options (\<open>None\<close> is \<^verbatim>\<open>undefined\<close>); \<^verbatim>\<open>imageBase64: string | null\<close> is an option
  with \<open>None\<close> for \<^verbatim>\<open>null\<close>. The field \<^verbatim>\<open>id\<close> is called \<open>step_id\<close>, since
  \<open>id\<close> is the identity function of HOL.
\<close>

record FlowStep =
  step_id :: string
  prompt :: string
  status :: FlowStatus
  imageBase64 :: "string option"
  isUpscaled :: "bool option"
  error :: "string option"

section \<open>JavaScript values\<close>

text \<open>
  A string is truthy when it is not empty; \<^verbatim>\<open>null\<close> and \<^verbatim>\<open>undefined\<close> are falsy.
\<close>

fun truthy :: "string option \<Rightarrow> bool" where
  "truthy None = False"
| "truthy (Some s) = (s \<noteq> [])"

text \<open>
  \<^verbatim>\<open>String.prototype.trim\<close> removes white space and line terminators from both ends.
  A \<open>char\<close> is eight bits wide, so of the code units ECMAScript strips those below 256
  are listed: TAB, LF, VT, FF, CR, SP and NBSP.
\<close>

definition isWhiteSpace :: "char \<Rightarrow> bool" where
  "isWhiteSpace c =
     (c = CHR 0x09 \<or> c = CHR 0x0A \<or> c = CHR 0x0B \<or> c = CHR 0x0C \<or> c = CHR 0x0D
      \<or> c = CHR 0x20 \<or> c = CHR 0xA0)"

definition trim :: "string \<Rightarrow> string" where
  "trim s = rev (dropWhile isWhiteSpace (rev (dropWhile isWhiteSpace s)))"

text \<open>\<^verbatim>\<open>a.startsWith(b)\<close> and \<^verbatim>\<open>a.includes(b)\<close>.\<close>

fun startsWith :: "string \<Rightarrow> string \<Rightarrow> bool" where
  "startsWith s [] = True"
| "startsWith [] (p # ps) = False"
| "startsWith (c # cs) (p # ps) = (c = p \<and> startsWith cs ps)"

fun str_includes :: "string \<Rightarrow> string \<Rightarrow> bool" where
  "str_includes [] p = (p = [])"
| "str_includes (c # cs) p = (startsWith (c # cs) p \<or> str_includes cs p)"

text \<open>A thrown value: only its \<^verbatim>\<open>message\<close> property is ever read.\<close>

datatype JsError = JsError (message: "string option")

text \<open>\<^verbatim>\<open>prev.map((s, idx) => ...)\<close>: the callback receives the element and its index.\<close>

fun map_from :: "nat \<Rightarrow> ('a \<Rightarrow> nat \<Rightarrow> 'b) \<Rightarrow> 'a list \<Rightarrow> 'b list" where
  "map_from n f [] = []"
| "map_from n f (x # xs) = f x n # map_from (Suc n) f xs"

definition map_idx :: "('a \<Rightarrow> nat \<Rightarrow> 'b) \<Rightarrow> 'a list \<Rightarrow> 'b list" where
  "map_idx f xs = map_from 0 f xs"

section \<open>The remote service (services/geminiService.ts)\<close>

text \<open>
  The request sent to \<^verbatim>\<open>ai.models.generateContent\<close> and the part of its response
  that the service reads. Every property that the source tests for presence is an option.
\<close>

datatype Blob = Blob (mimeType: "string option") (data: "string option")

datatype Part = Part (inlineData: "Blob option") (part_text: "string option")

datatype Content = Content (parts: "Part list option")

datatype Candidate = Candidate (content: "Content option")

datatype GenerateContentResponse = GenerateContentResponse (candidates: "Candidate list option")

record GenerateContentParameters =
  model :: string
  contents :: "Part list"
  cfg_aspectRatio :: AspectRatio
  cfg_imageSize :: "string option"

text \<open>
  What lies outside the repository, as one record: the answer of
  \<^verbatim>\<open>window.aistudio.hasSelectedApiKey()\<close> (\<open>None\<close> when \<^verbatim>\<open>window.aistudio\<close> or the
  method is absent, \<open>Inl\<close> when the call throws), whether
  \<^verbatim>\<open>window.aistudio.openSelectKey\<close> exists, and the answer of the model to a request
  (\<open>Inl\<close> when constructing the client or the call throws).
\<close>

record remote =
  hasSelectedApiKey :: "(JsError + bool) option"
  openSelectKey :: bool
  generateContent :: "GenerateContentParameters \<Rightarrow> JsError + GenerateContentResponse"

definition IMAGE_MODEL :: string where
  "IMAGE_MODEL = ''gemini-2.5-flash-image''"

definition UPSCALE_MODEL :: string where
  "UPSCALE_MODEL = ''gemini-3-pro-image-preview''"

text \<open>
  Reading a property of \<^verbatim>\<open>undefined\<close> throws a TypeError; the wording of its message
  is the engine's (here V8's). No result below depends on the wording.
\<close>

definition typeError :: "string \<Rightarrow> JsError" where
  "typeError p = JsError (Some (''Cannot read properties of undefined (reading ''
     @ [CHR 0x27] @ p @ [CHR 0x27] @ '')''))"

text \<open>
  The extraction of the image from a response, shared by both service functions:
  \<^verbatim>\<open>if (response.candidates && response.candidates[0].content.parts) { for (part ...)
  if (part.inlineData && part.inlineData.data) return part.inlineData.data }
  throw new Error(msg)\<close>.
\<close>

definition hasData :: "Part \<Rightarrow> bool" where
  "hasData p = (case inlineData p of None \<Rightarrow> False | Some b \<Rightarrow> truthy (data b))"

definition extractImage :: "string \<Rightarrow> GenerateContentResponse \<Rightarrow> JsError + string" where
  "extractImage msg response =
     (case candidates response of
        None \<Rightarrow> Inl (JsError (Some msg))
      | Some [] \<Rightarrow> Inl (typeError ''content'')
      | Some (c # _) \<Rightarrow>
          (case content c of
             None \<Rightarrow> Inl (typeError ''parts'')
           | Some ct \<Rightarrow>
               (case parts ct of
                  None \<Rightarrow> Inl (JsError (Some msg))
                | Some ps \<Rightarrow>
                    (case find hasData ps of
                       None \<Rightarrow> Inl (JsError (Some msg))
                     | Some p \<Rightarrow> Inr (the (data (the (inlineData p))))))))"

definition referenceInstruction :: string where
  "referenceInstruction = ''Using the provided image as a strict structural and compositional reference, generate a new image that transforms the scene according to this instruction: ''"

definition generateRequest :: "string \<Rightarrow> string option \<Rightarrow> AspectRatio \<Rightarrow> GenerateContentParameters" where
  "generateRequest p referenceImageBase64 ar =
     \<lparr> model = IMAGE_MODEL,
       contents =
         (if truthy referenceImageBase64
          then [Part (Some (Blob (Some ''image/png'') referenceImageBase64)) None,
                Part None (Some referenceInstruction)]
          else []) @ [Part None (Some p)],
       cfg_aspectRatio = ar,
       cfg_imageSize = None \<rparr>"

text \<open>
  \<^verbatim>\<open>generateFlowImage\<close>: whatever is thrown inside the \<^verbatim>\<open>try\<close> is replaced by
  \<^verbatim>\<open>new Error(error.message || "Failed to generate image")\<close>.
\<close>

definition generateFlowImage ::
  "remote \<Rightarrow> string \<Rightarrow> string option \<Rightarrow> AspectRatio \<Rightarrow> JsError + string" where
  "generateFlowImage r p referenceImageBase64 ar =
     (case (case generateContent r (generateRequest p referenceImageBase64 ar) of
              Inl e \<Rightarrow> Inl e
            | Inr response \<Rightarrow> extractImage ''No image data found in response'' response) of
        Inr img \<Rightarrow> Inr img
      | Inl e \<Rightarrow>
          Inl (JsError (Some (if truthy (message e) then the (message e)
                              else ''Failed to generate image''))))"

definition upscaleInstruction :: string where
  "upscaleInstruction = ''Generate a high-fidelity, 2K resolution version of this image. Maintain the exact composition, lighting, and details of the reference image while significantly improving sharpness and texture quality. ''"

definition upscaleRequest :: "string \<Rightarrow> string \<Rightarrow> AspectRatio \<Rightarrow> GenerateContentParameters" where
  "upscaleRequest p img ar =
     \<lparr> model = UPSCALE_MODEL,
       contents = [Part (Some (Blob (Some ''image/png'') (Some img))) None,
                   Part None (Some (upscaleInstruction @ p))],
       cfg_aspectRatio = ar,
       cfg_imageSize = Some ''2K'' \<rparr>"

text \<open>
  \<^verbatim>\<open>upscaleFlowImage\<close>: the key check comes first; the \<^verbatim>\<open>catch\<close> turns a message that
  includes "Requested entity was not found" into \<^verbatim>\<open>API_KEY_INVALID\<close> and rethrows
  everything else as it is.
\<close>

definition upscaleFlowImage ::
  "remote \<Rightarrow> string \<Rightarrow> string \<Rightarrow> AspectRatio \<Rightarrow> JsError + string" where
  "upscaleFlowImage r p img ar =
     (case (case hasSelectedApiKey r of
              Some (Inl e) \<Rightarrow> Inl e
            | Some (Inr False) \<Rightarrow> Inl (JsError (Some ''API_KEY_REQUIRED''))
            | _ \<Rightarrow>
               (case generateContent r (upscaleRequest p img ar) of
                  Inl e \<Rightarrow> Inl e
                | Inr response \<Rightarrow> extractImage ''No upscaled image data found'' response)) of
        Inr up \<Rightarrow> Inr up
      | Inl e \<Rightarrow>
          (if truthy (message e) \<and> str_includes (the (message e)) ''Requested entity was not found''
           then Inl (JsError (Some ''API_KEY_INVALID''))
           else Inl e))"

text \<open>
  What the application asks of the outside world, in the order it asks: a call of
  \<^verbatim>\<open>generateFlowImage\<close> (for the loop index, with prompt, reference image and aspect
  ratio), a call of \<^verbatim>\<open>upscaleFlowImage\<close> (for the step id, with prompt, image and
  aspect ratio), and what \<^verbatim>\<open>requestApiKeySelection\<close> does.
\<close>

datatype effect =
    GenerateCall nat string "string option" AspectRatio
  | UpscaleCall string string string AspectRatio
  | OpenSelectKey
  | WarnNoKeySelection

text \<open>
  \<^verbatim>\<open>requestApiKeySelection\<close> opens the key dialog when the host offers one and warns on
  the console otherwise. The dialog is taken to return.
\<close>

definition requestApiKeySelection :: "remote \<Rightarrow> effect list" where
  "requestApiKeySelection r = (if openSelectKey r then [OpenSelectKey] else [WarnNoKeySelection])"

section \<open>The application state and the step store (App.tsx)\<close>

record App =
  steps :: "FlowStep list"
  isProcessing :: bool
  aspectRatio :: AspectRatio

text \<open>A step as \<^verbatim>\<open>useState\<close> and \<^verbatim>\<open>addStep\<close> create it, with the identifier \<^verbatim>\<open>uuidv4()\<close> returned.\<close>

definition newStep :: "string \<Rightarrow> FlowStep" where
  "newStep uuid = \<lparr> step_id = uuid, prompt = [], status = IDLE, imageBase64 = None,
                     isUpscaled = None, error = None \<rparr>"

definition initialApp :: "string \<Rightarrow> App" where
  "initialApp uuid = \<lparr> steps = [newStep uuid], isProcessing = False, aspectRatio = AR_16_9 \<rparr>"

definition addStep :: "string \<Rightarrow> 'a App_scheme \<Rightarrow> 'a App_scheme" where
  "addStep uuid a = a\<lparr>steps := steps a @ [newStep uuid]\<rparr>"

definition removeStep :: "string \<Rightarrow> 'a App_scheme \<Rightarrow> 'a App_scheme" where
  "removeStep i a =
     (if length (steps a) \<le> 1 then a
      else a\<lparr>steps := filter (\<lambda>s. step_id s \<noteq> i) (steps a)\<rparr>)"

definition updatePrompt :: "string \<Rightarrow> string \<Rightarrow> 'a App_scheme \<Rightarrow> 'a App_scheme" where
  "updatePrompt i newPrompt a =
     a\<lparr>steps := map (\<lambda>s. if step_id s = i then s\<lparr>prompt := newPrompt\<rparr> else s) (steps a)\<rparr>"

definition setAspectRatio :: "AspectRatio \<Rightarrow> 'a App_scheme \<Rightarrow> 'a App_scheme" where
  "setAspectRatio ar a = a\<lparr>aspectRatio := ar\<rparr>"

section \<open>The generation walk (generateImages)\<close>

text \<open>The three updates that the loop publishes with \<^verbatim>\<open>setSteps\<close>, each by index.\<close>

definition setGenerating :: "nat \<Rightarrow> FlowStep list \<Rightarrow> FlowStep list" where
  "setGenerating i prev =
     map_idx (\<lambda>s idx. if idx = i then s\<lparr>status := GENERATING, error := None\<rparr> else s) prev"

definition setCompleted :: "nat \<Rightarrow> string \<Rightarrow> FlowStep list \<Rightarrow> FlowStep list" where
  "setCompleted i generatedImageBase64 prev =
     map_idx (\<lambda>s idx. if idx = i
                then s\<lparr>status := COMPLETED, imageBase64 := Some generatedImageBase64,
                       isUpscaled := Some False\<rparr>
                else s) prev"

definition setError :: "nat \<Rightarrow> string option \<Rightarrow> FlowStep list \<Rightarrow> FlowStep list" where
  "setError i msg prev =
     map_idx (\<lambda>s idx. if idx = i then s\<lparr>status := ERROR, error := msg\<rparr> else s) prev"

text \<open>
  The \<^verbatim>\<open>for\<close> loop from index \<open>i\<close> on, run to its end. Its arguments are the answers of
  the remote service (the one given to the request made at loop index \<open>i\<close> is \<open>rs i\<close>),
  the aspect ratio of the closure, the index, what is left of the copy \<^verbatim>\<open>currentSteps\<close>,
  the variable \<^verbatim>\<open>previousImage\<close>, the state \<^verbatim>\<open>steps\<close> that \<^verbatim>\<open>setSteps\<close> updates,
  and the calls made so far. \<^verbatim>\<open>continue\<close> is the recursive call and \<^verbatim>\<open>break\<close> the
  return.
\<close>

fun walk ::
  "(nat \<Rightarrow> remote) \<Rightarrow> AspectRatio \<Rightarrow> nat \<Rightarrow> FlowStep list \<Rightarrow> string option
     \<Rightarrow> FlowStep list \<Rightarrow> effect list \<Rightarrow> FlowStep list \<times> effect list" where
  "walk rs ar i [] previousImage live fx = (live, fx)"
| "walk rs ar i (step # rest) previousImage live fx =
     (if \<not> truthy (Some (trim (prompt step))) then
        walk rs ar (Suc i) rest
          (if truthy (imageBase64 step) then imageBase64 step else previousImage) live fx
      else if truthy (imageBase64 step) \<and> status step = COMPLETED then
        walk rs ar (Suc i) rest (imageBase64 step) live fx
      else
        (case generateFlowImage (rs i) (prompt step) previousImage ar of
           Inr generatedImageBase64 \<Rightarrow>
             walk rs ar (Suc i) rest (Some generatedImageBase64)
               (setCompleted i generatedImageBase64 (setGenerating i live))
               (fx @ [GenerateCall i (prompt step) previousImage ar])
         | Inl err \<Rightarrow>
             (setError i (message err) (setGenerating i live),
              fx @ [GenerateCall i (prompt step) previousImage ar])))"

text \<open>
  \<^verbatim>\<open>generateImages\<close> from start to end, with no other handler running in between:
  the guard, the walk over a copy of \<^verbatim>\<open>steps\<close>, and the \<^verbatim>\<open>finally\<close>.
\<close>

definition generateImages ::
  "(nat \<Rightarrow> remote) \<Rightarrow> 'a App_scheme \<Rightarrow> 'a App_scheme \<times> effect list" where
  "generateImages rs a =
     (if isProcessing a then (a, [])
      else (case walk rs (aspectRatio a) 0 (steps a) None (steps a) [] of
              (live, fx) \<Rightarrow> (a\<lparr>steps := live, isProcessing := False\<rparr>, fx)))"

section \<open>The upscale handler (handleUpscale)\<close>

text \<open>
  The guard of \<^verbatim>\<open>handleUpscale\<close>: the step that \<^verbatim>\<open>steps.find\<close> returns, when there
  is one, it holds an image and it is not upscaling; \<open>None\<close> is the early return.
\<close>

definition upscaleTarget :: "string \<Rightarrow> 'a App_scheme \<Rightarrow> FlowStep option" where
  "upscaleTarget i a =
     (case find (\<lambda>s. step_id s = i) (steps a) of
        None \<Rightarrow> None
      | Some step \<Rightarrow>
          (if \<not> truthy (imageBase64 step) \<or> status step = UPSCALING then None
           else Some step))"

definition setUpscaling :: "string \<Rightarrow> FlowStep list \<Rightarrow> FlowStep list" where
  "setUpscaling i prev = map (\<lambda>s. if step_id s = i then s\<lparr>status := UPSCALING\<rparr> else s) prev"

text \<open>
  What \<^verbatim>\<open>handleUpscale\<close> does once \<^verbatim>\<open>upscaleFlowImage\<close> has answered, on the state
  \<^verbatim>\<open>steps\<close> of that moment: the update of the \<^verbatim>\<open>try\<close> block or one of the two of the
  \<^verbatim>\<open>catch\<close> block, with the effects of \<^verbatim>\<open>requestApiKeySelection\<close>.
\<close>

definition upscaleReturns ::
  "JsError + string \<Rightarrow> remote \<Rightarrow> string \<Rightarrow> FlowStep list \<Rightarrow> FlowStep list \<times> effect list" where
  "upscaleReturns res r i prev =
     (case res of
        Inr upscaledImage \<Rightarrow>
          (map (\<lambda>s. if step_id s = i
                  then s\<lparr>status := COMPLETED, imageBase64 := Some upscaledImage,
                         isUpscaled := Some True\<rparr>
                  else s) prev, [])
      | Inl e \<Rightarrow>
          (if message e = Some ''API_KEY_REQUIRED'' \<or> message e = Some ''API_KEY_INVALID''
           then (map (\<lambda>s. if step_id s = i then s\<lparr>status := COMPLETED\<rparr> else s) prev,
                 requestApiKeySelection r)
           else (map (\<lambda>s. if step_id s = i
                        then s\<lparr>status := COMPLETED,
                               error := Some ''Upscale failed. Please try again.''\<rparr>
                        else s) prev, [])))"

text \<open>\<^verbatim>\<open>handleUpscale\<close> from start to end, with no other handler running in between.\<close>

definition handleUpscale :: "remote \<Rightarrow> string \<Rightarrow> 'a App_scheme \<Rightarrow> 'a App_scheme \<times> effect list" where
  "handleUpscale r i a =
     (case upscaleTarget i a of
        None \<Rightarrow> (a, [])
      | Some step \<Rightarrow>
          (case upscaleReturns
                  (upscaleFlowImage r (prompt step) (the (imageBase64 step)) (aspectRatio a))
                  r i (setUpscaling i (steps a)) of
             (live, fx) \<Rightarrow>
               (a\<lparr>steps := live\<rparr>,
                UpscaleCall i (prompt step) (the (imageBase64 step)) (aspectRatio a) # fx)))"

section \<open>The handlers as a transition system\<close>

text \<open>
  An \<^verbatim>\<open>async\<close> handler runs until its next \<^verbatim>\<open>await\<close> of a remote call and goes on
  when the call answers; in between, any other handler may run. A suspended handler is a
  task that holds what its closure captured: for the walk the loop index, the step being
  generated, \<^verbatim>\<open>previousImage\<close>, the rest of \<^verbatim>\<open>currentSteps\<close> and the aspect ratio;
  for an upscale the id, the step found and the aspect ratio.
\<close>

datatype task =
    WalkAwait nat FlowStep "string option" "FlowStep list" AspectRatio
  | UpscaleAwait string FlowStep AspectRatio

record Sys = App +
  tasks :: "task list"
  issued :: "effect list"

datatype event =
    AddStep string
  | RemoveStep string
  | UpdatePrompt string string
  | SetAspectRatio AspectRatio
  | GenerateImages
  | HandleUpscale string
  | Returns nat remote

definition initialSys :: "string \<Rightarrow> Sys" where
  "initialSys uuid = \<lparr> steps = [newStep uuid], isProcessing = False, aspectRatio = AR_16_9,
                        tasks = [], issued = [] \<rparr>"

text \<open>
  The loop of \<^verbatim>\<open>generateImages\<close> from index \<open>i\<close> up to its next \<^verbatim>\<open>await\<close>, or to its
  end, where the \<^verbatim>\<open>finally\<close> block clears the flag.
\<close>

fun walk_sync :: "AspectRatio \<Rightarrow> nat \<Rightarrow> FlowStep list \<Rightarrow> string option \<Rightarrow> Sys \<Rightarrow> Sys" where
  "walk_sync ar i [] previousImage s = s\<lparr>isProcessing := False\<rparr>"
| "walk_sync ar i (step # rest) previousImage s =
     (if \<not> truthy (Some (trim (prompt step))) then
        walk_sync ar (Suc i) rest
          (if truthy (imageBase64 step) then imageBase64 step else previousImage) s
      else if truthy (imageBase64 step) \<and> status step = COMPLETED then
        walk_sync ar (Suc i) rest (imageBase64 step) s
      else
        s\<lparr>steps := setGenerating i (steps s),
          tasks := tasks s @ [WalkAwait i step previousImage rest ar],
          issued := issued s @ [GenerateCall i (prompt step) previousImage ar]\<rparr>)"

definition dropTask :: "nat \<Rightarrow> Sys \<Rightarrow> Sys" where
  "dropTask n s = s\<lparr>tasks := take n (tasks s) @ drop (Suc n) (tasks s)\<rparr>"

text \<open>What a task does when its remote call answers with \<open>r\<close>.\<close>

fun resume :: "task \<Rightarrow> remote \<Rightarrow> Sys \<Rightarrow> Sys" where
  "resume (WalkAwait i step previousImage rest ar) r s =
     (case generateFlowImage r (prompt step) previousImage ar of
        Inr generatedImageBase64 \<Rightarrow>
          walk_sync ar (Suc i) rest (Some generatedImageBase64)
            (s\<lparr>steps := setCompleted i generatedImageBase64 (steps s)\<rparr>)
      | Inl err \<Rightarrow>
          s\<lparr>steps := setError i (message err) (steps s), isProcessing := False\<rparr>)"
| "resume (UpscaleAwait i step ar) r s =
     (case upscaleReturns (upscaleFlowImage r (prompt step) (the (imageBase64 step)) ar)
             r i (steps s) of
        (live, fx) \<Rightarrow> s\<lparr>steps := live, issued := issued s @ fx\<rparr>)"

fun fire :: "event \<Rightarrow> Sys \<Rightarrow> Sys" where
  "fire (AddStep uuid) s = addStep uuid s"
| "fire (RemoveStep i) s = removeStep i s"
| "fire (UpdatePrompt i newPrompt) s = updatePrompt i newPrompt s"
| "fire (SetAspectRatio ar) s = setAspectRatio ar s"
| "fire GenerateImages s =
     (if isProcessing s then s
      else walk_sync (aspectRatio s) 0 (steps s) None (s\<lparr>isProcessing := True\<rparr>))"
| "fire (HandleUpscale i) s =
     (case upscaleTarget i s of
        None \<Rightarrow> s
      | Some step \<Rightarrow>
          s\<lparr>steps := setUpscaling i (steps s),
            tasks := tasks s @ [UpscaleAwait i step (aspectRatio s)],
            issued := issued s @
              [UpscaleCall i (prompt step) (the (imageBase64 step)) (aspectRatio s)]\<rparr>)"
| "fire (Returns n r) s =
     (if n < length (tasks s) then resume (tasks s ! n) r (dropTask n s) else s)"

fun run :: "event list \<Rightarrow> Sys \<Rightarrow> Sys" where
  "run [] s = s"
| "run (e # es) s = run es (fire e s)"

text \<open>
  The states the application can be in. \<^verbatim>\<open>uuidv4()\<close> is taken to return an identifier
  that no step of the flow carries; an answer arrives only for a call that is pending.
\<close>

fun enabled :: "event \<Rightarrow> Sys \<Rightarrow> bool" where
  "enabled (AddStep uuid) s = (uuid \<notin> set (map step_id (steps s)))"
| "enabled (Returns n r) s = (n < length (tasks s))"
| "enabled e s = True"

inductive reachable :: "Sys \<Rightarrow> bool" where
  init: "reachable (initialSys uuid)"
| step: "reachable s \<Longrightarrow> enabled e s \<Longrightarrow> reachable (fire e s)"

section \<open>Observations on the state\<close>

text \<open>The identifiers and the images of the steps, in order.\<close>

definition ids :: "FlowStep list \<Rightarrow> string list" where
  "ids xs = map step_id xs"

definition images :: "FlowStep list \<Rightarrow> string option list" where
  "images xs = map imageBase64 xs"

text \<open>A walk is in progress when a task of \<^verbatim>\<open>generateImages\<close> is suspended.\<close>

fun isWalk :: "task \<Rightarrow> bool" where
  "isWalk (WalkAwait i step previousImage rest ar) = True"
| "isWalk (UpscaleAwait i step ar) = False"

definition walkInFlight :: "Sys \<Rightarrow> bool" where
  "walkInFlight s = list_ex isWalk (tasks s)"

definition walks :: "Sys \<Rightarrow> nat" where
  "walks s = length (filter isWalk (tasks s))"

text \<open>A sequence of events each of which is enabled where it happens.\<close>

fun admissible :: "event list \<Rightarrow> Sys \<Rightarrow> bool" where
  "admissible [] s = True"
| "admissible (e # es) s = (enabled e s \<and> admissible es (fire e s))"

text \<open>The loop index for which a call of \<^verbatim>\<open>generateFlowImage\<close> was made, and whether a list
  of effects holds a call for a given index.\<close>

fun callIndex :: "effect \<Rightarrow> nat option" where
  "callIndex (GenerateCall i p r ar) = Some i"
| "callIndex e = None"

definition calledFor :: "effect list \<Rightarrow> nat \<Rightarrow> bool" where
  "calledFor fx m = (Some m \<in> set (map callIndex fx))"

text \<open>No step of the second list is \<open>UPSCALING\<close> unless it is in the first.\<close>

definition noNewUpscaling :: "FlowStep list \<Rightarrow> FlowStep list \<Rightarrow> bool" where
  "noNewUpscaling xs ys =
     (length ys = length xs
      \<and> (\<forall>k<length xs. status (ys ! k) = UPSCALING \<longrightarrow> status (xs ! k) = UPSCALING))"

section \<open>What the page offers\<close>

text \<open>
  What the rendered page lets the user do (App.tsx and StepCard.tsx): the add button is
  disabled while \<^verbatim>\<open>isProcessing\<close>; the delete button and the text area of a card are
  disabled while its step is generating or upscaling; a walk starts from the generate
  button (disabled while \<^verbatim>\<open>isProcessing\<close>) or from the Enter key in a text area that is
  not disabled; the upscale button of a card is shown when the step is not generating,
  holds an image, is not upscaling and is not upscaled.
\<close>

definition editable :: "FlowStep \<Rightarrow> bool" where
  "editable st = (status st \<noteq> GENERATING \<and> status st \<noteq> UPSCALING)"

fun offered :: "event \<Rightarrow> Sys \<Rightarrow> bool" where
  "offered (AddStep uuid) s = (\<not> isProcessing s)"
| "offered (RemoveStep i) s = list_ex (\<lambda>st. step_id st = i \<and> editable st) (steps s)"
| "offered (UpdatePrompt i newPrompt) s =
     list_ex (\<lambda>st. step_id st = i \<and> editable st) (steps s)"
| "offered (SetAspectRatio ar) s = True"
| "offered GenerateImages s = (\<not> isProcessing s \<or> list_ex editable (steps s))"
| "offered (HandleUpscale i) s =
     list_ex (\<lambda>st. step_id st = i \<and> editable st \<and> truthy (imageBase64 st)
                \<and> isUpscaled st \<noteq> Some True) (steps s)"
| "offered (Returns n r) s = True"

fun allOffered :: "event list \<Rightarrow> Sys \<Rightarrow> bool" where
  "allOffered [] s = True"
| "allOffered (e # es) s = (offered e s \<and> allOffered es (fire e s))"

section \<open>Sample data\<close>

text \<open>
  A step with an id and a prompt that has not been generated, a response of the model
  that carries one image after a text part, a remote service that answers every request
  with that image, and one that throws on every request.
\<close>

definition demoStep :: "string \<Rightarrow> string \<Rightarrow> FlowStep" where
  "demoStep i p = (newStep i)\<lparr>prompt := p\<rparr>"

definition imageResponse :: "string \<Rightarrow> GenerateContentResponse" where
  "imageResponse d =
     GenerateContentResponse (Some [Candidate (Some (Content (Some
       [Part None (Some ''Here is the image''), Part (Some (Blob (Some ''image/png'') (Some d))) None])))])"

definition answers :: "string \<Rightarrow> remote" where
  "answers d = \<lparr> hasSelectedApiKey = None, openSelectKey = False,
                 generateContent = (\<lambda>_. Inr (imageResponse d)) \<rparr>"

definition throws :: "string \<Rightarrow> remote" where
  "throws m = \<lparr> hasSelectedApiKey = None, openSelectKey = False,
                generateContent = (\<lambda>_. Inl (JsError (Some m))) \<rparr>"

definition twoSteps :: App where
  "twoSteps = \<lparr> steps = [demoStep ''a'' ''empty room'', demoStep ''b'' ''add a sofa''],
                isProcessing = False, aspectRatio = AR_16_9 \<rparr>"

definition upscalingStep :: FlowStep where
  "upscalingStep = \<lparr> step_id = ''a'', prompt = ''empty room'', status = UPSCALING,
                       imageBase64 = Some ''A'', isUpscaled = Some False, error = None \<rparr>"

text \<open>
  Two states that the application reaches: after a first run that painted step \<open>a\<close> and
  the addition of step \<open>b\<close>; and the same with the prompt of \<open>a\<close> blanked afterwards and
  an empty step \<open>c\<close> in between.
\<close>

definition afterFirstRun :: Sys where
  "afterFirstRun = run [UpdatePrompt ''a'' ''empty room'', GenerateImages,
     Returns 0 (answers ''A''), AddStep ''b'', UpdatePrompt ''b'' ''add a sofa'']
     (initialSys ''a'')"


text \<open>
  The first of these states with an upscale of step \<open>a\<close> pending; a state in which an
  upscale of step \<open>a\<close> has failed; and a host in which no key has been selected.
\<close>

definition whileUpscaling :: Sys where
  "whileUpscaling = run [UpdatePrompt ''a'' ''empty room'', GenerateImages,
     Returns 0 (answers ''A''), AddStep ''b'', UpdatePrompt ''b'' ''add a sofa'',
     HandleUpscale ''a''] (initialSys ''a'')"

definition afterFailedUpscale :: Sys where
  "afterFailedUpscale = run [UpdatePrompt ''a'' ''empty room'', GenerateImages,
     Returns 0 (answers ''A''), HandleUpscale ''a'', Returns 0 (throws ''overloaded'')]
     (initialSys ''a'')"

definition noKey :: remote where
  "noKey = \<lparr> hasSelectedApiKey = Some (Inr False), openSelectKey = True,
             generateContent = (\<lambda>_. Inr (imageResponse ''U'')) \<rparr>"

text \<open>A state in which a walk waits for the answer to its first call.\<close>

definition whileWalking :: Sys where
  "whileWalking = run [UpdatePrompt ''a'' ''empty room'', AddStep ''b'',
     UpdatePrompt ''b'' ''add a sofa'', GenerateImages] (initialSys ''a'')"

text \<open>
  A walk started while the upscale of step \<open>a\<close> is pending, and failing: the events, and
  the state they lead to.
\<close>

definition overlapEvents :: "event list" where
  "overlapEvents = [UpdatePrompt ''a'' ''empty room'', GenerateImages,
     Returns 0 (answers ''A''), HandleUpscale ''a'', GenerateImages,
     Returns 1 (throws ''rate limited'')]"

definition afterOverlap :: Sys where
  "afterOverlap = run overlapEvents (initialSys ''a'')"

section \<open>Updates by index\<close>

lemma map_from_update:
  "map_from n (\<lambda>s idx. if idx = i then g s else s) xs =
     (if n \<le> i then xs[i - n := g (xs ! (i - n))] else xs)"
proof (induction xs arbitrary: n)
  case Nil
  show ?case by simp
next
  case (Cons x xs)
  show ?case
  proof (cases "n = i")
    case True
    then show ?thesis using Cons [of "Suc n"] by simp
  next
    case False
    show ?thesis
    proof (cases "n < i")
      case True
      then have "i - n = Suc (i - Suc n)" by simp
      then show ?thesis using Cons [of "Suc n"] True by simp
    next
      case False
      with \<open>n \<noteq> i\<close> show ?thesis using Cons [of "Suc n"] by simp
    qed
  qed
qed

lemma map_idx_update:
  "map_idx (\<lambda>s idx. if idx = i then g s else s) xs = xs[i := g (xs ! i)]"
  by (simp add: map_idx_def map_from_update)

lemma setGenerating_eq:
  "setGenerating i xs = xs[i := (xs ! i)\<lparr>status := GENERATING, error := None\<rparr>]"
  unfolding setGenerating_def by (rule map_idx_update)

lemma setCompleted_eq:
  "setCompleted i img xs =
     xs[i := (xs ! i)\<lparr>status := COMPLETED, imageBase64 := Some img, isUpscaled := Some False\<rparr>]"
  unfolding setCompleted_def by (rule map_idx_update)

lemma setError_eq:
  "setError i m xs = xs[i := (xs ! i)\<lparr>status := ERROR, error := m\<rparr>]"
  unfolding setError_def by (rule map_idx_update)


section \<open>Properties of the walk\<close>

lemma walk_fx:
  "walk rs ar i cur prev live fx =
     (fst (walk rs ar i cur prev live []), fx @ snd (walk rs ar i cur prev live []))"
proof (induction cur arbitrary: i prev live fx)
  case Nil
  show ?case by simp
next
  case (Cons step rest)
  note IH = Cons [of _ _ _ "fx @ [GenerateCall i (prompt step) prev ar]"]
    Cons [of _ _ _ "[GenerateCall i (prompt step) prev ar]"]
    Cons [of _ _ _ fx]
  show ?case
  proof (cases "generateFlowImage (rs i) (prompt step) prev ar")
    case (Inl err)
    then show ?thesis using IH(3) by simp
  next
    case (Inr img)
    show ?thesis
      using Inr IH(3)
      by (simp add: IH(1) [of "Suc i" "Some img"] IH(2) [of "Suc i" "Some img"])
  qed
qed

lemma walk_Cons_cases:
  obtains
    (skip) prev' where
      "walk rs ar i (step # rest) prev live [] = walk rs ar (Suc i) rest prev' live []"
  | (fail) e where
      "generateFlowImage (rs i) (prompt step) prev ar = Inl e"
      "walk rs ar i (step # rest) prev live [] =
         (setError i (message e) (setGenerating i live),
          [GenerateCall i (prompt step) prev ar])"
  | (ok) img where
      "generateFlowImage (rs i) (prompt step) prev ar = Inr img"
      "walk rs ar i (step # rest) prev live [] =
         (fst (walk rs ar (Suc i) rest (Some img)
                 (setCompleted i img (setGenerating i live)) []),
          GenerateCall i (prompt step) prev ar #
          snd (walk rs ar (Suc i) rest (Some img)
                 (setCompleted i img (setGenerating i live)) []))"
proof (cases "\<not> truthy (Some (trim (prompt step)))
               \<or> (truthy (imageBase64 step) \<and> status step = COMPLETED)")
  case True
  then have "\<exists>prev'. walk rs ar i (step # rest) prev live [] =
                      walk rs ar (Suc i) rest prev' live []"
    by (cases "truthy (Some (trim (prompt step)))") auto
  then show ?thesis using skip by blast
next
  case False
  show ?thesis
  proof (cases "generateFlowImage (rs i) (prompt step) prev ar")
    case (Inl e)
    with False show ?thesis using fail [of e] by auto
  next
    case (Inr img)
    with False show ?thesis
      using ok [of img]
        walk_fx [of rs ar "Suc i" rest "Some img" _ "[GenerateCall i (prompt step) prev ar]"]
      by auto
  qed
qed


lemma walk_calls:
  "e \<in> set (snd (walk rs ar i cur prev live [])) \<Longrightarrow>
     \<exists>j p r. e = GenerateCall j p r ar \<and> i \<le> j \<and> j < i + length cur"
proof (induction cur arbitrary: i prev live)
  case Nil
  then show ?case by simp
next
  case (Cons step rest)
  show ?case
  proof (cases rule: walk_Cons_cases [of rs ar i step rest prev live])
    case (skip prev')
    with Cons.prems have "e \<in> set (snd (walk rs ar (Suc i) rest prev' live []))" by simp
    from Cons.IH [OF this] show ?thesis by auto
  next
    case (fail err)
    with Cons.prems have "e = GenerateCall i (prompt step) prev ar" by simp
    then show ?thesis by simp
  next
    case (ok img)
    with Cons.prems consider "e = GenerateCall i (prompt step) prev ar"
      | "e \<in> set (snd (walk rs ar (Suc i) rest (Some img)
                          (setCompleted i img (setGenerating i live)) []))"
      by auto
    then show ?thesis
    proof cases
      case 1
      then show ?thesis by simp
    next
      case 2
      from Cons.IH [OF this] show ?thesis by auto
    qed
  qed
qed


lemma walk_failure:
  assumes "GenerateCall k p ref ar' \<in> set (snd (walk rs ar i cur prev live []))"
      and "generateFlowImage (rs k) p ref ar' = Inl err"
      and "i + length cur \<le> length live"
  shows "fst (walk rs ar i cur prev live []) ! k = (live ! k)\<lparr>status := ERROR, error := message err\<rparr>
         \<and> (\<forall>j>k. fst (walk rs ar i cur prev live []) ! j = live ! j)
         \<and> (\<forall>j q r a. GenerateCall j q r a \<in> set (snd (walk rs ar i cur prev live [])) \<longrightarrow> j \<le> k)
         \<and> last (snd (walk rs ar i cur prev live [])) = GenerateCall k p ref ar'"
  using assms
proof (induction cur arbitrary: i prev live)
  case Nil
  then show ?case by simp
next
  case (Cons step rest)
  let ?c = "GenerateCall i (prompt step) prev ar"
  show ?case
  proof (cases rule: walk_Cons_cases [of rs ar i step rest prev live])
    case (skip prev')
    show ?thesis
      using Cons.IH [of "Suc i" prev' live] Cons.prems unfolding skip by simp
  next
    case (fail e)
    from Cons.prems(1) have eq: "k = i" "p = prompt step" "ref = prev" "ar' = ar"
      unfolding fail(2) by auto
    with fail(1) Cons.prems(2) have "e = err" by simp
    moreover have "i < length live" using Cons.prems(3) by simp
    ultimately show ?thesis
      unfolding fail(2) using eq by (simp add: setError_eq setGenerating_eq)
  next
    case (ok img)
    let ?live = "setCompleted i img (setGenerating i live)"
    let ?r = "walk rs ar (Suc i) rest (Some img) ?live []"
    have notc: "GenerateCall k p ref ar' \<noteq> ?c"
      using ok(1) Cons.prems(2) by auto
    with Cons.prems(1) have mem: "GenerateCall k p ref ar' \<in> set (snd ?r)"
      unfolding ok(2) by auto
    have k: "Suc i \<le> k" using walk_calls [OF mem] by auto
    have len: "Suc i + length rest \<le> length ?live"
      using Cons.prems(3) by (simp add: setCompleted_eq setGenerating_eq)
    note IH = Cons.IH [OF mem Cons.prems(2) len]
    have ne: "snd ?r \<noteq> []" using mem by auto
    have 1: "fst ?r ! k = (live ! k)\<lparr>status := ERROR, error := message err\<rparr>"
      using IH k by (simp add: setCompleted_eq setGenerating_eq)
    have 2: "\<forall>j>k. fst ?r ! j = live ! j"
      using IH k by (simp add: setCompleted_eq setGenerating_eq)
    have 3: "\<forall>j q r a. GenerateCall j q r a \<in> set (?c # snd ?r) \<longrightarrow> j \<le> k"
      using IH k by auto
    have 4: "last (?c # snd ?r) = GenerateCall k p ref ar'"
      using IH ne by simp
    show ?thesis unfolding ok(2) using 1 2 3 4 by simp
  qed
qed


section \<open>Steps that the walk passes over\<close>






lemma calledFor_iff: "calledFor fx m \<longleftrightarrow> (\<exists>p r a. GenerateCall m p r a \<in> set fx)"
proof
  assume "calledFor fx m"
  then obtain e where e: "e \<in> set fx" "callIndex e = Some m"
    by (auto simp: calledFor_def)
  from e(2) have "\<exists>p r a. e = GenerateCall m p r a" by (cases e) auto
  with e(1) show "\<exists>p r a. GenerateCall m p r a \<in> set fx" by blast
next
  assume "\<exists>p r a. GenerateCall m p r a \<in> set fx"
  then show "calledFor fx m" by (force simp: calledFor_def)
qed

lemma calledFor_Cons [simp]:
  "calledFor (GenerateCall i p r a # fx) m \<longleftrightarrow> m = i \<or> calledFor fx m"
  by (auto simp: calledFor_def)

lemma calledFor_Nil [simp]: "\<not> calledFor [] m"
  by (simp add: calledFor_def)

lemma walk_calledFor:
  "calledFor (snd (walk rs ar i cur prev live [])) m \<Longrightarrow> i \<le> m \<and> m < i + length cur"
  unfolding calledFor_iff using walk_calls [of _ rs ar i cur prev live] by fastforce




section \<open>The transition system\<close>

lemma reachable_run: "reachable s \<Longrightarrow> admissible es s \<Longrightarrow> reachable (run es s)"
  by (induction es arbitrary: s) (auto intro: reachable.step)

subsection \<open>What the service functions return\<close>




lemma generateFlowImage_message:
  assumes "generateFlowImage r p ref ar = Inl e"
  shows "\<exists>m. message e = Some m \<and> m \<noteq> []"
proof -
  define x where "x = (case generateContent r (generateRequest p ref ar) of
              Inl e \<Rightarrow> Inl e
            | Inr response \<Rightarrow> extractImage ''No image data found in response'' response)"
  have g: "generateFlowImage r p ref ar =
     (case x of Inr img \<Rightarrow> Inr img
      | Inl e \<Rightarrow> Inl (JsError (Some (if truthy (message e) then the (message e)
                              else ''Failed to generate image''))))"
    unfolding generateFlowImage_def x_def ..
  show ?thesis
  proof (cases x)
    case (Inl e0)
    then have e: "e = JsError (Some (if truthy (message e0) then the (message e0)
                              else ''Failed to generate image''))"
      using assms unfolding g by simp
    show ?thesis
    proof (cases "message e0")
      case None
      then show ?thesis unfolding e by simp
    next
      case (Some m)
      then show ?thesis unfolding e by (cases "m = []") simp_all
    qed
  next
    case (Inr img)
    then show ?thesis using assms unfolding g by simp
  qed
qed


lemma walk_sync_cases:
  "(tasks (walk_sync ar i cur prev s) = tasks s \<and> \<not> isProcessing (walk_sync ar i cur prev s)
      \<and> steps (walk_sync ar i cur prev s) = steps s
      \<and> issued (walk_sync ar i cur prev s) = issued s)
   \<or> (\<exists>t j. isWalk t \<and> tasks (walk_sync ar i cur prev s) = tasks s @ [t]
          \<and> isProcessing (walk_sync ar i cur prev s) = isProcessing s
          \<and> steps (walk_sync ar i cur prev s) = setGenerating j (steps s))"
proof (induction cur arbitrary: i prev)
  case Nil
  show ?case by simp
next
  case (Cons step rest)
  show ?case
  proof (cases "\<not> truthy (Some (trim (prompt step)))
                 \<or> (truthy (imageBase64 step) \<and> status step = COMPLETED)")
    case True
    then obtain prev' where
      "walk_sync ar i (step # rest) prev s = walk_sync ar (Suc i) rest prev' s"
      by (cases "truthy (Some (trim (prompt step)))") auto
    then show ?thesis using Cons [of "Suc i" prev'] by simp
  next
    case False
    then have "walk_sync ar i (step # rest) prev s =
        s\<lparr>steps := setGenerating i (steps s),
          tasks := tasks s @ [WalkAwait i step prev rest ar],
          issued := issued s @ [GenerateCall i (prompt step) prev ar]\<rparr>"
      by auto
    then show ?thesis by auto
  qed
qed

subsection \<open>What each update keeps\<close>

lemma map_update_same: "f y = f (xs ! i) \<Longrightarrow> map f (xs[i := y]) = map f xs"
  by (metis list_update_beyond list_update_id map_update not_le_imp_less nth_map)

lemma map_if_same: "(\<And>x. f (g x) = f x) \<Longrightarrow> map f (map (\<lambda>s. if P s then g s else s) xs) = map f xs"
  by (induction xs) auto

lemma ids_setGenerating [simp]: "ids (setGenerating i xs) = ids xs"
  unfolding ids_def by (simp add: setGenerating_eq map_update_same)

lemma images_setGenerating [simp]: "images (setGenerating i xs) = images xs"
  unfolding images_def by (simp add: setGenerating_eq map_update_same)

lemma ids_setError [simp]: "ids (setError i m xs) = ids xs"
  unfolding ids_def by (simp add: setError_eq map_update_same)

lemma images_setError [simp]: "images (setError i m xs) = images xs"
  unfolding images_def by (simp add: setError_eq map_update_same)

lemma ids_setCompleted [simp]: "ids (setCompleted i img xs) = ids xs"
  unfolding ids_def by (simp add: setCompleted_eq map_update_same)


lemma ids_setUpscaling [simp]: "ids (setUpscaling i xs) = ids xs"
  unfolding ids_def setUpscaling_def by (rule map_if_same) simp

lemma images_setUpscaling [simp]: "images (setUpscaling i xs) = images xs"
  unfolding images_def setUpscaling_def by (rule map_if_same) simp

lemma ids_upscaleReturns [simp]: "ids (fst (upscaleReturns res r i xs)) = ids xs"
proof (cases res)
  case (Inl e)
  then show ?thesis unfolding ids_def upscaleReturns_def by (simp add: map_if_same)
next
  case (Inr up)
  then show ?thesis unfolding ids_def upscaleReturns_def by (simp add: map_if_same)
qed

lemma ids_walk_sync [simp]: "ids (steps (walk_sync ar i cur prev s)) = ids (steps s)"
  using walk_sync_cases [of ar i cur prev s] by auto

lemma images_walk_sync [simp]: "images (steps (walk_sync ar i cur prev s)) = images (steps s)"
  using walk_sync_cases [of ar i cur prev s] by auto

subsection \<open>Invariants of the transition system\<close>





lemma ids_resume [simp]: "ids (steps (resume t r s)) = ids (steps s)"
  by (cases t) (simp_all split: sum.split add: split_beta)

lemma fire_ids:
  assumes "\<And>u. e \<noteq> AddStep u" and "\<And>i. e \<noteq> RemoveStep i"
  shows "ids (steps (fire e s)) = ids (steps s)"
proof (cases e)
  case (UpdatePrompt i p)
  have "ids (steps (updatePrompt i p s)) = ids (steps s)"
    unfolding ids_def updatePrompt_def by (simp add: map_if_same)
  then show ?thesis using UpdatePrompt by simp
next
  case (Returns n r)
  then show ?thesis by (simp add: dropTask_def)
qed (use assms in \<open>simp_all add: setAspectRatio_def split: option.split\<close>)

lemma filter_distinct_length:
  "distinct (map f xs) \<Longrightarrow> length xs \<le> Suc (length (filter (\<lambda>x. f x \<noteq> i) xs))"
proof (induction xs)
  case Nil
  show ?case by simp
next
  case (Cons x xs)
  show ?case
  proof (cases "f x = i")
    case True
    with Cons.prems have "\<forall>y\<in>set xs. f y \<noteq> i" by (auto simp: image_iff)
    then have "filter (\<lambda>x. f x \<noteq> i) xs = xs" by simp
    then show ?thesis using True by simp
  next
    case False
    then show ?thesis using Cons by simp
  qed
qed

lemma fire_distinct:
  assumes "distinct (ids (steps s))" and "enabled e s"
  shows "distinct (ids (steps (fire e s)))"
proof (cases e)
  case (AddStep u)
  then show ?thesis using assms by (simp add: addStep_def newStep_def ids_def)
next
  case (RemoveStep i)
  then show ?thesis using assms by (simp add: removeStep_def distinct_map_filter ids_def)
qed (use assms fire_ids [of e s] in auto)

lemma reachable_distinct: "reachable s \<Longrightarrow> distinct (ids (steps s))"
proof (induction rule: reachable.induct)
  case (init uuid)
  show ?case by (simp add: initialSys_def ids_def)
next
  case (step s e)
  then show ?case by (simp add: fire_distinct)
qed

lemma fire_length:
  assumes "\<And>i. e \<noteq> RemoveStep i"
  shows "length (steps s) \<le> length (steps (fire e s))"
proof (cases "\<exists>u. e = AddStep u")
  case True
  then show ?thesis by (auto simp: addStep_def)
next
  case False
  then have "length (ids (steps (fire e s))) = length (ids (steps s))"
    using assms fire_ids [of e s] by auto
  then show ?thesis by (simp add: ids_def)
qed

lemma reachable_nonempty: "reachable s \<Longrightarrow> 1 \<le> length (steps s)"
proof (induction rule: reachable.induct)
  case (init uuid)
  show ?case by (simp add: initialSys_def)
next
  case (step s e)
  show ?case
  proof (cases "\<exists>i. e = RemoveStep i")
    case True
    then obtain i where e: "e = RemoveStep i" by blast
    show ?thesis
    proof (cases "length (steps s) \<le> 1")
      case True
      then show ?thesis using e step.IH by (simp add: removeStep_def)
    next
      case False
      then show ?thesis
        using e filter_distinct_length [of step_id "steps s" i]
          reachable_distinct [OF step.hyps(1)]
        by (simp add: removeStep_def ids_def)
    qed
  next
    case False
    then show ?thesis using fire_length [of e s] step.IH by auto
  qed
qed

subsection \<open>One walk at a time\<close>

lemma filter_drop_nth:
  assumes "n < length xs"
  shows "length (filter P (take n xs @ drop (Suc n) xs)) =
           length (filter P xs) - (if P (xs ! n) then 1 else 0)"
proof -
  have "length (filter P xs) = length (filter P (take n xs @ xs ! n # drop (Suc n) xs))"
    using id_take_nth_drop [OF assms] by simp
  then show ?thesis by simp
qed

lemma walks_walk_sync:
  "(walks (walk_sync ar i cur prev s) = walks s \<and> \<not> isProcessing (walk_sync ar i cur prev s))
   \<or> (walks (walk_sync ar i cur prev s) = walks s + 1
       \<and> isProcessing (walk_sync ar i cur prev s) = isProcessing s)"
  using walk_sync_cases [of ar i cur prev s] unfolding walks_def by auto

lemma fire_single_flight:
  assumes "walks s = (if isProcessing s then 1 else 0)"
  shows "walks (fire e s) = (if isProcessing (fire e s) then 1 else 0)"
proof (cases e)
  case (AddStep u)
  then show ?thesis using assms by (auto simp: addStep_def walks_def split: if_splits)
next
  case (RemoveStep i)
  then show ?thesis using assms by (auto simp: removeStep_def walks_def split: if_splits)
next
  case (UpdatePrompt i p)
  then show ?thesis using assms by (auto simp: updatePrompt_def walks_def split: if_splits)
next
  case (SetAspectRatio ar)
  then show ?thesis using assms by (auto simp: setAspectRatio_def walks_def split: if_splits)
next
  case GenerateImages
  show ?thesis
  proof (cases "isProcessing s")
    case True
    then show ?thesis using GenerateImages assms by simp
  next
    case False
    let ?w = "walk_sync (aspectRatio s) 0 (steps s) None (s\<lparr>isProcessing := True\<rparr>)"
    have "walks (s\<lparr>isProcessing := True\<rparr>) = 0" using False assms by (simp add: walks_def)
    then have "walks ?w = (if isProcessing ?w then 1 else 0)"
      using walks_walk_sync [of "aspectRatio s" 0 "steps s" None "s\<lparr>isProcessing := True\<rparr>"]
      by auto
    then show ?thesis using GenerateImages False by simp
  qed
next
  case (HandleUpscale i)
  then show ?thesis using assms by (auto simp: walks_def split: option.split if_splits)
next
  case (Returns n r)
  show ?thesis
  proof (cases "n < length (tasks s)")
    case False
    then show ?thesis using Returns assms by simp
  next
    case True
    let ?d = "dropTask n s"
    have d: "walks ?d = walks s - (if isWalk (tasks s ! n) then 1 else 0)"
      "isProcessing ?d = isProcessing s"
      using filter_drop_nth [OF True, of isWalk] by (simp_all add: walks_def dropTask_def)
    show ?thesis
    proof (cases "tasks s ! n")
      case (UpscaleAwait i step ar)
      then have "walks (resume (tasks s ! n) r ?d) = walks ?d"
        "isProcessing (resume (tasks s ! n) r ?d) = isProcessing ?d"
        by (simp_all add: walks_def split_beta)
      then show ?thesis using Returns True d assms UpscaleAwait by simp
    next
      case (WalkAwait i step prev rest ar)
      then have "isWalk (tasks s ! n)" by simp
      moreover have "tasks s ! n \<in> set (tasks s)" using True by simp
      ultimately have "filter isWalk (tasks s) \<noteq> []" by (auto simp: filter_empty_conv)
      then have ws: "walks s = 1" "isProcessing s"
        using assms by (auto simp: walks_def split: if_splits)
      then have d0: "walks ?d = 0" using d WalkAwait by simp
      show ?thesis
      proof (cases "generateFlowImage r (prompt step) prev ar")
        case (Inl err)
        then have "resume (tasks s ! n) r ?d =
            ?d\<lparr>steps := setError i (message err) (steps ?d), isProcessing := False\<rparr>"
          using WalkAwait by simp
        then show ?thesis using Returns True d0 by (simp add: walks_def)
      next
        case (Inr img)
        let ?s1 = "?d\<lparr>steps := setCompleted i img (steps ?d)\<rparr>"
        have p1: "isProcessing ?s1" using ws d by simp
        have r: "resume (tasks s ! n) r ?d = walk_sync ar (Suc i) rest (Some img) ?s1"
          using WalkAwait Inr by simp
        have "walks ?s1 = 0" using d0 by (simp add: walks_def)
        then have "walks (walk_sync ar (Suc i) rest (Some img) ?s1) =
            (if isProcessing (walk_sync ar (Suc i) rest (Some img) ?s1) then 1 else 0)"
          using walks_walk_sync [of ar "Suc i" rest "Some img" ?s1] p1 by auto
        then show ?thesis using Returns True r by simp
      qed
    qed
  qed
qed

lemma reachable_single_flight:
  "reachable s \<Longrightarrow> walks s = (if isProcessing s then 1 else 0)"
proof (induction rule: reachable.induct)
  case (init uuid)
  show ?case by (simp add: initialSys_def walks_def)
next
  case (step s e)
  then show ?case by (simp only: fire_single_flight)
qed

lemma walkInFlight_walks: "walkInFlight s \<longleftrightarrow> 0 < walks s"
  by (auto simp: walkInFlight_def walks_def list_ex_iff filter_empty_conv)

section \<open>Evaluation of the sample data\<close>

lemmas walk_eval = generateImages_def generateFlowImage_def generateRequest_def extractImage_def
  hasData_def trim_def isWhiteSpace_def setGenerating_def setCompleted_def setError_def
  map_idx_def demoStep_def newStep_def imageResponse_def answers_def throws_def twoSteps_def

lemmas sys_eval = initialSys_def addStep_def removeStep_def updatePrompt_def setAspectRatio_def
  upscaleTarget_def setUpscaling_def upscaleReturns_def upscaleFlowImage_def upscaleRequest_def
  requestApiKeySelection_def dropTask_def

lemma afterFirstRun_eq:
  "afterFirstRun =
     \<lparr> steps = [\<lparr> step_id = ''a'', prompt = ''empty room'', status = COMPLETED,
                  imageBase64 = Some ''A'', isUpscaled = Some False, error = None \<rparr>,
                demoStep ''b'' ''add a sofa''],
       isProcessing = False, aspectRatio = AR_16_9, tasks = [],
       issued = [GenerateCall 0 ''empty room'' None AR_16_9] \<rparr>"
  unfolding afterFirstRun_def by (simp add: sys_eval walk_eval)

lemma afterFirstRun_reachable: "reachable afterFirstRun"
  unfolding afterFirstRun_def
  by (rule reachable_run [OF reachable.init]) (simp add: sys_eval walk_eval)



lemma whileUpscaling_eq:
  "whileUpscaling =
     \<lparr> steps = [\<lparr> step_id = ''a'', prompt = ''empty room'', status = UPSCALING,
                  imageBase64 = Some ''A'', isUpscaled = Some False, error = None \<rparr>,
                demoStep ''b'' ''add a sofa''],
       isProcessing = False, aspectRatio = AR_16_9,
       tasks = [UpscaleAwait ''a''
                  \<lparr> step_id = ''a'', prompt = ''empty room'', status = COMPLETED,
                    imageBase64 = Some ''A'', isUpscaled = Some False, error = None \<rparr> AR_16_9],
       issued = [GenerateCall 0 ''empty room'' None AR_16_9,
                 UpscaleCall ''a'' ''empty room'' ''A'' AR_16_9] \<rparr>"
  unfolding whileUpscaling_def by (simp add: sys_eval walk_eval)

lemma whileUpscaling_reachable: "reachable whileUpscaling"
  unfolding whileUpscaling_def
  by (rule reachable_run [OF reachable.init]) (simp add: sys_eval walk_eval)

lemma afterFailedUpscale_eq:
  "afterFailedUpscale =
     \<lparr> steps = [\<lparr> step_id = ''a'', prompt = ''empty room'', status = COMPLETED,
                  imageBase64 = Some ''A'', isUpscaled = Some False,
                  error = Some ''Upscale failed. Please try again.'' \<rparr>],
       isProcessing = False, aspectRatio = AR_16_9, tasks = [],
       issued = [GenerateCall 0 ''empty room'' None AR_16_9,
                 UpscaleCall ''a'' ''empty room'' ''A'' AR_16_9] \<rparr>"
  unfolding afterFailedUpscale_def by (simp add: sys_eval walk_eval)

lemma whileWalking_eq:
  "whileWalking =
     \<lparr> steps = [\<lparr> step_id = ''a'', prompt = ''empty room'', status = GENERATING,
                  imageBase64 = None, isUpscaled = None, error = None \<rparr>,
                demoStep ''b'' ''add a sofa''],
       isProcessing = True, aspectRatio = AR_16_9,
       tasks = [WalkAwait 0 (demoStep ''a'' ''empty room'') None
                  [demoStep ''b'' ''add a sofa''] AR_16_9],
       issued = [GenerateCall 0 ''empty room'' None AR_16_9] \<rparr>"
  unfolding whileWalking_def by (simp add: sys_eval walk_eval)

lemma whileWalking_reachable: "reachable whileWalking"
  unfolding whileWalking_def
  by (rule reachable_run [OF reachable.init]) (simp add: sys_eval walk_eval)

lemma afterOverlap_eq:
  "afterOverlap =
     \<lparr> steps = [\<lparr> step_id = ''a'', prompt = ''empty room'', status = ERROR,
                  imageBase64 = Some ''A'', isUpscaled = Some False,
                  error = Some ''rate limited'' \<rparr>],
       isProcessing = False, aspectRatio = AR_16_9,
       tasks = [UpscaleAwait ''a''
                  \<lparr> step_id = ''a'', prompt = ''empty room'', status = COMPLETED,
                    imageBase64 = Some ''A'', isUpscaled = Some False, error = None \<rparr> AR_16_9],
       issued = [GenerateCall 0 ''empty room'' None AR_16_9,
                 UpscaleCall ''a'' ''empty room'' ''A'' AR_16_9,
                 GenerateCall 0 ''empty room'' None AR_16_9] \<rparr>"
  unfolding afterOverlap_def overlapEvents_def by (simp add: sys_eval walk_eval)

lemma afterOverlap_reachable: "reachable afterOverlap"
  unfolding afterOverlap_def overlapEvents_def
  by (rule reachable_run [OF reachable.init]) (simp add: sys_eval walk_eval)

lemma afterOverlap_offered:
  "allOffered (overlapEvents @ [HandleUpscale ''a'']) (initialSys ''a'')"
  unfolding overlapEvents_def by (simp add: sys_eval walk_eval editable_def)

section \<open>A whole run of the walk\<close>


lemma generateImages_walk:
  "\<not> isProcessing a \<Longrightarrow>
     generateImages rs a =
       (a\<lparr>steps := fst (walk rs (aspectRatio a) 0 (steps a) None (steps a) []),
          isProcessing := False\<rparr>,
        snd (walk rs (aspectRatio a) 0 (steps a) None (steps a) []))"
  by (simp add: generateImages_def split: prod.split)

lemma generateImages_busy: "isProcessing a \<Longrightarrow> generateImages rs a = (a, [])"
  by (simp add: generateImages_def)


section \<open>The upscale handler\<close>

lemma find_distinct:
  assumes "distinct (map f xs)" and "k < length xs"
  shows "find (\<lambda>x. f x = f (xs ! k)) xs = Some (xs ! k)"
  using assms
proof (induction xs arbitrary: k)
  case Nil
  then show ?case by simp
next
  case (Cons x xs)
  show ?case
  proof (cases k)
    case 0
    then show ?thesis by simp
  next
    case (Suc k')
    then have k': "k' < length xs" using Cons.prems(2) by simp
    then have "f (xs ! k') \<in> set (map f xs)" by simp
    then have "f x \<noteq> f (xs ! k')" using Cons.prems(1) by auto
    then show ?thesis using Suc Cons.IH [OF _ k'] Cons.prems(1) by simp
  qed
qed

lemma upscaleTarget_None:
  "upscaleTarget i a = None \<Longrightarrow> handleUpscale r i a = (a, [])"
  by (simp add: handleUpscale_def)

lemma upscaleTarget_None_fire:
  "upscaleTarget i s = None \<Longrightarrow> fire (HandleUpscale i) s = s"
  by simp

lemma upscaleTarget_nth:
  assumes "distinct (ids (steps a))" and "k < length (steps a)"
  shows "upscaleTarget (step_id (steps a ! k)) a =
           (if \<not> truthy (imageBase64 (steps a ! k)) \<or> status (steps a ! k) = UPSCALING
            then None else Some (steps a ! k))"
  using find_distinct [of step_id "steps a" k] assms
  by (simp add: upscaleTarget_def ids_def)

lemma upscaleTarget_absent:
  "i \<notin> set (ids (steps a)) \<Longrightarrow> upscaleTarget i a = None"
proof -
  assume "i \<notin> set (ids (steps a))"
  then have "find (\<lambda>s. step_id s = i) (steps a) = None"
    by (auto simp: find_None_iff ids_def)
  then show ?thesis by (simp add: upscaleTarget_def)
qed

lemma map_if_nth:
  "k < length xs \<Longrightarrow> map (\<lambda>x. if P x then g x else x) xs ! k = (if P (xs ! k) then g (xs ! k) else xs ! k)"
  by simp

lemma handleUpscale_run:
  "upscaleTarget i a = Some step \<Longrightarrow>
     handleUpscale r i a =
       (a\<lparr>steps := fst (upscaleReturns
            (upscaleFlowImage r (prompt step) (the (imageBase64 step)) (aspectRatio a))
            r i (setUpscaling i (steps a)))\<rparr>,
        UpscaleCall i (prompt step) (the (imageBase64 step)) (aspectRatio a) #
        snd (upscaleReturns
            (upscaleFlowImage r (prompt step) (the (imageBase64 step)) (aspectRatio a))
            r i (setUpscaling i (steps a))))"
  by (simp add: handleUpscale_def split_beta)

lemma upscaleFlowImage_no_key:
  "hasSelectedApiKey r = Some (Inr False) \<Longrightarrow>
     upscaleFlowImage r p img ar = Inl (JsError (Some ''API_KEY_REQUIRED''))"
  by (simp add: upscaleFlowImage_def)

lemma upscaleFlowImage_not_found:
  assumes "hasSelectedApiKey r = None \<or> hasSelectedApiKey r = Some (Inr True)"
      and "generateContent r (upscaleRequest p img ar) = Inl x"
      and "message x = Some m"
      and "str_includes m ''Requested entity was not found''"
  shows "upscaleFlowImage r p img ar = Inl (JsError (Some ''API_KEY_INVALID''))"
proof -
  have "m \<noteq> []" using assms(4) by (cases m) auto
  then show ?thesis
    using assms by (auto simp: upscaleFlowImage_def)
qed

section \<open>Into and out of \<open>UPSCALING\<close>\<close>

lemma noNewUpscaling_refl [simp]: "noNewUpscaling xs xs"
  by (simp add: noNewUpscaling_def)

lemma noNewUpscaling_trans:
  "noNewUpscaling xs ys \<Longrightarrow> noNewUpscaling ys zs \<Longrightarrow> noNewUpscaling xs zs"
  by (simp add: noNewUpscaling_def)

lemma noNewUpscaling_update:
  "status y \<noteq> UPSCALING \<Longrightarrow> noNewUpscaling xs (xs[i := y])"
  by (cases "i < length xs")
     (auto simp: noNewUpscaling_def nth_list_update split: if_splits)

lemma noNewUpscaling_setGenerating [simp]: "noNewUpscaling xs (setGenerating i xs)"
  by (simp add: setGenerating_eq noNewUpscaling_update)

lemma noNewUpscaling_setCompleted [simp]: "noNewUpscaling xs (setCompleted i img xs)"
  by (simp add: setCompleted_eq noNewUpscaling_update)

lemma noNewUpscaling_setError [simp]: "noNewUpscaling xs (setError i m xs)"
  by (simp add: setError_eq noNewUpscaling_update)

lemma noNewUpscaling_map:
  "(\<And>x. P x \<Longrightarrow> status (g x) \<noteq> UPSCALING) \<Longrightarrow>
     noNewUpscaling xs (map (\<lambda>x. if P x then g x else x) xs)"
  by (auto simp: noNewUpscaling_def)

lemma noNewUpscaling_upscaleReturns [simp]:
  "noNewUpscaling xs (fst (upscaleReturns res r i xs))"
  by (cases res) (simp_all add: upscaleReturns_def noNewUpscaling_map)

lemma noNewUpscaling_walk_sync [simp]:
  "noNewUpscaling (steps s) (steps (walk_sync ar i cur prev s))"
  using walk_sync_cases [of ar i cur prev s] by auto

lemma noNewUpscaling_resume [simp]: "noNewUpscaling (steps s) (steps (resume t r s))"
proof (cases t)
  case (WalkAwait i step prev rest ar)
  show ?thesis
  proof (cases "generateFlowImage r (prompt step) prev ar")
    case (Inl e)
    then show ?thesis using WalkAwait by simp
  next
    case (Inr img)
    have "noNewUpscaling (setCompleted i img (steps s))
            (steps (walk_sync ar (Suc i) rest (Some img)
               (s\<lparr>steps := setCompleted i img (steps s)\<rparr>)))"
      using noNewUpscaling_walk_sync [of "s\<lparr>steps := setCompleted i img (steps s)\<rparr>"] by simp
    then show ?thesis
      using WalkAwait Inr noNewUpscaling_trans [OF noNewUpscaling_setCompleted] by simp
  qed
next
  case (UpscaleAwait i step ar)
  then show ?thesis by (simp add: split_beta)
qed

text \<open>Only \<^verbatim>\<open>handleUpscale\<close> makes a step \<open>UPSCALING\<close>.\<close>

lemma upscaling_only_by_handleUpscale:
  assumes "k < length (steps s)"
      and "\<And>i. e \<noteq> RemoveStep i" and "\<And>i. e \<noteq> HandleUpscale i"
      and "status (steps (fire e s) ! k) = UPSCALING"
  shows "status (steps s ! k) = UPSCALING"
proof (cases e)
  case (AddStep u)
  then show ?thesis using assms(1,4) by (simp add: addStep_def nth_append)
next
  case (UpdatePrompt i p)
  then show ?thesis using assms(1,4) by (simp add: updatePrompt_def split: if_splits)
next
  case (SetAspectRatio ar)
  then show ?thesis using assms(4) by (simp add: setAspectRatio_def)
next
  case GenerateImages
  have "noNewUpscaling (steps s)
          (steps (walk_sync (aspectRatio s) 0 (steps s) None (s\<lparr>isProcessing := True\<rparr>)))"
    using noNewUpscaling_walk_sync [of "s\<lparr>isProcessing := True\<rparr>"] by simp
  then show ?thesis using GenerateImages assms(1,4)
    by (auto simp: noNewUpscaling_def split: if_splits)
next
  case (Returns n r)
  have "noNewUpscaling (steps s) (steps (resume (tasks s ! n) r (dropTask n s)))"
    using noNewUpscaling_resume [of "dropTask n s"] by (simp add: dropTask_def)
  then show ?thesis using Returns assms(1,4)
    by (auto simp: noNewUpscaling_def split: if_splits)
qed (use assms in auto)

lemma removeStep_subset: "set (steps (removeStep i a)) \<subseteq> set (steps a)"
  by (auto simp: removeStep_def)

text \<open>When it does, the step holds an image and was not \<open>UPSCALING\<close>.\<close>

lemma handleUpscale_enters:
  assumes "distinct (ids (steps s))" and "k < length (steps s)"
      and "status (steps (fire (HandleUpscale i) s) ! k) = UPSCALING"
      and "status (steps s ! k) \<noteq> UPSCALING"
  shows "i = step_id (steps s ! k) \<and> truthy (imageBase64 (steps s ! k))"
proof (cases "upscaleTarget i s")
  case None
  then show ?thesis using assms(3,4) by simp
next
  case (Some step)
  then have "status (setUpscaling i (steps s) ! k) = UPSCALING" using assms(3) by simp
  then have i: "i = step_id (steps s ! k)"
    using assms(2,4) by (auto simp: setUpscaling_def split: if_splits)
  then have "upscaleTarget (step_id (steps s ! k)) s \<noteq> None" using Some by simp
  then have "truthy (imageBase64 (steps s ! k))"
    using upscaleTarget_nth [OF assms(1,2)] by (auto split: if_splits)
  with i show ?thesis by simp
qed

text \<open>Whatever the answer to the upscale call, the step with the id ends \<open>COMPLETED\<close>.\<close>

lemma upscaleReturns_completed:
  assumes "k < length xs" and "step_id (xs ! k) = i"
  shows "status (fst (upscaleReturns res r i xs) ! k) = COMPLETED"
  using assms by (cases res) (simp_all add: upscaleReturns_def)

section \<open>Generation failure\<close>




section \<open>Memoised and blank steps\<close>






section \<open>The status \<open>UPSCALING\<close>\<close>

text \<open>
  Claim C4, as stated, fails. The page offers every event of \<open>overlapEvents\<close>: an upscale
  of step \<open>a\<close> is pending when a walk starts; the walk does not find the step
  \<open>COMPLETED\<close>, generates it again and fails. The step is then \<open>ERROR\<close> and holds its
  image, the upscale button is shown, and \<^verbatim>\<open>handleUpscale\<close> takes the step from \<open>ERROR\<close>
  to \<open>UPSCALING\<close>.
\<close>

theorem upscaling_entered_from_error:
  "reachable afterOverlap
   \<and> allOffered (overlapEvents @ [HandleUpscale ''a'']) (initialSys ''a'')
   \<and> status (steps afterOverlap ! 0) = ERROR
   \<and> status (steps (fire (HandleUpscale ''a'') afterOverlap) ! 0) = UPSCALING"
  using afterOverlap_reachable afterOverlap_offered
  by (simp add: afterOverlap_eq sys_eval)

text \<open>
  Claim C4, amended. In every state the application reaches, a step becomes \<open>UPSCALING\<close>
  only by \<^verbatim>\<open>handleUpscale\<close> for its id, and only when it holds an image and is not
  \<open>UPSCALING\<close> already (removing a step changes no other step); and when the upscale call
  answers, whatever the answer, \<^verbatim>\<open>handleUpscale\<close> leaves the step \<open>COMPLETED\<close>.
\<close>

theorem upscaling_transitions:
  assumes "reachable s" and "k < length (steps s)"
  shows "((\<forall>i. e \<noteq> RemoveStep i) \<and> status (steps (fire e s) ! k) = UPSCALING
            \<and> status (steps s ! k) \<noteq> UPSCALING
          \<longrightarrow> e = HandleUpscale (step_id (steps s ! k)) \<and> imageBase64 (steps s ! k) \<noteq> None)
       \<and> set (steps (fire (RemoveStep i) s)) \<subseteq> set (steps s)
       \<and> (\<forall>n r step ar.
             n < length (tasks s) \<and> tasks s ! n = UpscaleAwait (step_id (steps s ! k)) step ar
             \<longrightarrow> status (steps (fire (Returns n r) s) ! k) = COMPLETED)
       \<and> (\<forall>r step.
             upscaleTarget (step_id (steps s ! k)) s = Some step
             \<longrightarrow> status (steps (fst (handleUpscale r (step_id (steps s ! k)) s)) ! k) = COMPLETED)"
proof -
  have enter: "(\<forall>i. e \<noteq> RemoveStep i) \<and> status (steps (fire e s) ! k) = UPSCALING
            \<and> status (steps s ! k) \<noteq> UPSCALING
          \<longrightarrow> e = HandleUpscale (step_id (steps s ! k)) \<and> imageBase64 (steps s ! k) \<noteq> None"
  proof
    assume a: "(\<forall>i. e \<noteq> RemoveStep i) \<and> status (steps (fire e s) ! k) = UPSCALING
            \<and> status (steps s ! k) \<noteq> UPSCALING"
    then obtain i where e: "e = HandleUpscale i"
      using upscaling_only_by_handleUpscale [OF assms(2), of e] by blast
    have "i = step_id (steps s ! k) \<and> truthy (imageBase64 (steps s ! k))"
      using a handleUpscale_enters [OF reachable_distinct [OF assms(1)] assms(2), of i]
      unfolding e by blast
    then show "e = HandleUpscale (step_id (steps s ! k)) \<and> imageBase64 (steps s ! k) \<noteq> None"
      unfolding e by (cases "imageBase64 (steps s ! k)") auto
  qed
  have remove: "set (steps (fire (RemoveStep i) s)) \<subseteq> set (steps s)"
    using removeStep_subset [of i s] by simp
  have leave: "\<forall>n r step ar.
             n < length (tasks s) \<and> tasks s ! n = UpscaleAwait (step_id (steps s ! k)) step ar
             \<longrightarrow> status (steps (fire (Returns n r) s) ! k) = COMPLETED"
    using upscaleReturns_completed [OF assms(2) refl]
    by (simp add: split_beta dropTask_def)
  have whole: "\<forall>r step.
             upscaleTarget (step_id (steps s ! k)) s = Some step
             \<longrightarrow> status (steps (fst (handleUpscale r (step_id (steps s ! k)) s)) ! k) = COMPLETED"
  proof (intro allI impI)
    fix r step
    assume t: "upscaleTarget (step_id (steps s ! k)) s = Some step"
    have "k < length (setUpscaling (step_id (steps s ! k)) (steps s))"
      "step_id (setUpscaling (step_id (steps s ! k)) (steps s) ! k) = step_id (steps s ! k)"
      using assms(2) by (simp_all add: setUpscaling_def)
    then show "status (steps (fst (handleUpscale r (step_id (steps s ! k)) s)) ! k) = COMPLETED"
      unfolding handleUpscale_run [OF t] by (simp add: upscaleReturns_completed)
  qed
  show ?thesis using enter remove leave whole by blast
qed

theorem upscaling_transitions_witness:
  "reachable afterOverlap \<and> 0 < length (steps afterOverlap)
   \<and> status (steps afterOverlap ! 0) = ERROR
   \<and> status (steps (fire (HandleUpscale ''a'') afterOverlap) ! 0) = UPSCALING
   \<and> imageBase64 (steps afterOverlap ! 0) \<noteq> None
   \<and> tasks afterOverlap ! 0 = UpscaleAwait ''a'' (steps afterFirstRun ! 0) AR_16_9
   \<and> status (steps (fire (Returns 0 (answers ''U'')) afterOverlap) ! 0) = COMPLETED
   \<and> status (steps (fire (Returns 0 noKey) afterOverlap) ! 0) = COMPLETED
   \<and> status (steps (fire (Returns 0 (throws ''overloaded'')) afterOverlap) ! 0) = COMPLETED"
proof -
  have k: "0 < length (steps afterOverlap)" by (simp add: afterOverlap_eq)
  have f: "status (steps afterOverlap ! 0) = ERROR"
    "status (steps (fire (HandleUpscale ''a'') afterOverlap) ! 0) = UPSCALING"
    by (simp_all add: afterOverlap_eq sys_eval)
  have t: "0 < length (tasks afterOverlap)"
    "tasks afterOverlap ! 0 = UpscaleAwait (step_id (steps afterOverlap ! 0))
        (steps afterFirstRun ! 0) AR_16_9"
    "step_id (steps afterOverlap ! 0) = ''a''"
    by (simp_all add: afterOverlap_eq afterFirstRun_eq)
  show ?thesis
    using upscaling_transitions [OF afterOverlap_reachable k, of "HandleUpscale ''a''" "''a''"]
      afterOverlap_reachable k f t
    by auto
qed

section \<open>One walk at a time\<close>

text \<open>
  Claim C5. In every state the application reaches, the flag \<^verbatim>\<open>isProcessing\<close> is set
  exactly while a walk is suspended. \<^verbatim>\<open>generateImages\<close> invoked then changes nothing and
  makes no call. When the answer to a walk's call leaves no walk suspended (the walk has
  run off the end of the flow, or the call failed or threw), the flag is cleared; and a
  walk run to its end from a state with the flag cleared ends with the flag cleared.
\<close>

theorem generateImages_single_flight:
  assumes "reachable s"
  shows "(walkInFlight s \<longleftrightarrow> isProcessing s)
       \<and> (walkInFlight s \<longrightarrow> fire GenerateImages s = s \<and> generateImages rs s = (s, []))
       \<and> (\<forall>n r. n < length (tasks s) \<and> isWalk (tasks s ! n)
                    \<and> \<not> walkInFlight (fire (Returns n r) s)
               \<longrightarrow> \<not> isProcessing (fire (Returns n r) s))
       \<and> (\<not> isProcessing s \<longrightarrow> \<not> isProcessing (fst (generateImages rs s)))"
proof -
  have inv: "walkInFlight s \<longleftrightarrow> isProcessing s"
    using reachable_single_flight [OF assms] by (simp add: walkInFlight_walks split: if_splits)
  have ends: "\<forall>n r. n < length (tasks s) \<and> isWalk (tasks s ! n)
                    \<and> \<not> walkInFlight (fire (Returns n r) s)
               \<longrightarrow> \<not> isProcessing (fire (Returns n r) s)"
  proof (intro allI impI)
    fix n r
    assume a: "n < length (tasks s) \<and> isWalk (tasks s ! n)
                    \<and> \<not> walkInFlight (fire (Returns n r) s)"
    define t where "t = fire (Returns n r) s"
    have "enabled (Returns n r) s" using a by simp
    then have "reachable t" unfolding t_def using assms by (rule reachable.step [rotated])
    then have "walks t = (if isProcessing t then 1 else 0)"
      by (rule reachable_single_flight)
    moreover have "\<not> walkInFlight t" using a unfolding t_def by blast
    ultimately have "\<not> isProcessing t"
      by (simp add: walkInFlight_walks split: if_splits)
    then show "\<not> isProcessing (fire (Returns n r) s)" unfolding t_def .
  qed
  show ?thesis using inv ends by (simp add: generateImages_busy generateImages_walk)
qed


theorem generateImages_single_flight_witness:
  "reachable whileWalking \<and> walkInFlight whileWalking \<and> isProcessing whileWalking
   \<and> fire GenerateImages whileWalking = whileWalking
   \<and> generateImages (\<lambda>_. answers ''A'') whileWalking = (whileWalking, [])
   \<and> 0 < length (tasks whileWalking) \<and> isWalk (tasks whileWalking ! 0)
   \<and> \<not> walkInFlight (fire (Returns 0 (throws ''rate limited'')) whileWalking)
   \<and> \<not> isProcessing (fire (Returns 0 (throws ''rate limited'')) whileWalking)
   \<and> reachable afterFirstRun \<and> \<not> isProcessing afterFirstRun
   \<and> \<not> isProcessing (fst (generateImages (\<lambda>_. answers ''B'') afterFirstRun))"
proof -
  have w: "walkInFlight whileWalking" "0 < length (tasks whileWalking)"
    "isWalk (tasks whileWalking ! 0)"
    by (simp_all add: whileWalking_eq walkInFlight_def)
  have e: "\<not> walkInFlight (fire (Returns 0 (throws ''rate limited'')) whileWalking)"
    by (simp add: whileWalking_eq walkInFlight_def sys_eval walk_eval)
  have n: "\<not> isProcessing afterFirstRun" by (simp add: afterFirstRun_eq)
  show ?thesis
    using generateImages_single_flight [OF whileWalking_reachable,
        where rs = "\<lambda>_. answers ''A''"]
      generateImages_single_flight [OF afterFirstRun_reachable,
        where rs = "\<lambda>_. answers ''B''"]
      whileWalking_reachable afterFirstRun_reachable w e n
    by blast
qed

section \<open>Upscaling\<close>

text \<open>
  Claim C6. When \<^verbatim>\<open>upscaleFlowImage\<close> fails with the message \<^verbatim>\<open>API_KEY_REQUIRED\<close> or
  \<^verbatim>\<open>API_KEY_INVALID\<close>, \<^verbatim>\<open>handleUpscale\<close> makes that one upscale call, then calls
  \<^verbatim>\<open>requestApiKeySelection\<close>, and leaves every step as it was before the call but for
  the status of the step with that id, which is \<open>COMPLETED\<close>: images and errors are the
  same, and no second upscale call is made.
\<close>

theorem upscale_credential_failure:
  assumes "upscaleTarget i a = Some step"
      and "upscaleFlowImage r (prompt step) (the (imageBase64 step)) (aspectRatio a) = Inl e"
      and "message e = Some ''API_KEY_REQUIRED'' \<or> message e = Some ''API_KEY_INVALID''"
  shows "snd (handleUpscale r i a)
           = UpscaleCall i (prompt step) (the (imageBase64 step)) (aspectRatio a)
               # requestApiKeySelection r
       \<and> steps (fst (handleUpscale r i a))
           = map (\<lambda>x. if step_id x = i then x\<lparr>status := COMPLETED\<rparr> else x) (steps a)
       \<and> map imageBase64 (steps (fst (handleUpscale r i a))) = map imageBase64 (steps a)
       \<and> map error (steps (fst (handleUpscale r i a))) = map error (steps a)
       \<and> (\<forall>k<length (steps a). step_id (steps a ! k) = i \<longrightarrow>
             status (steps (fst (handleUpscale r i a)) ! k) = COMPLETED)"
proof -
  have u: "upscaleReturns (Inl e) r i (setUpscaling i (steps a))
           = (map (\<lambda>x. if step_id x = i then x\<lparr>status := COMPLETED\<rparr> else x) (steps a),
              requestApiKeySelection r)"
    using assms(3) by (auto simp: upscaleReturns_def setUpscaling_def)
  have s: "steps (fst (handleUpscale r i a))
           = map (\<lambda>x. if step_id x = i then x\<lparr>status := COMPLETED\<rparr> else x) (steps a)"
    and f: "snd (handleUpscale r i a)
           = UpscaleCall i (prompt step) (the (imageBase64 step)) (aspectRatio a)
               # requestApiKeySelection r"
    unfolding handleUpscale_run [OF assms(1)] assms(2) u by simp_all
  have i: "map imageBase64 (steps (fst (handleUpscale r i a))) = map imageBase64 (steps a)"
    and e: "map error (steps (fst (handleUpscale r i a))) = map error (steps a)"
    unfolding s by simp_all
  show ?thesis using s f i e by simp
qed

theorem upscale_credential_failure_witness:
  "upscaleTarget ''a'' afterFirstRun = Some (steps afterFirstRun ! 0)
   \<and> upscaleFlowImage noKey ''empty room'' ''A'' AR_16_9
       = Inl (JsError (Some ''API_KEY_REQUIRED''))
   \<and> snd (handleUpscale noKey ''a'' afterFirstRun)
       = [UpscaleCall ''a'' ''empty room'' ''A'' AR_16_9, OpenSelectKey]
   \<and> steps (fst (handleUpscale noKey ''a'' afterFirstRun)) = steps afterFirstRun"
proof -
  have t: "upscaleTarget ''a'' afterFirstRun = Some (steps afterFirstRun ! 0)"
    by (simp add: afterFirstRun_eq upscaleTarget_def)
  have u: "upscaleFlowImage noKey (prompt (steps afterFirstRun ! 0))
             (the (imageBase64 (steps afterFirstRun ! 0))) (aspectRatio afterFirstRun)
           = Inl (JsError (Some ''API_KEY_REQUIRED''))"
    by (rule upscaleFlowImage_no_key) (simp add: noKey_def)
  have m: "message (JsError (Some ''API_KEY_REQUIRED'')) = Some ''API_KEY_REQUIRED''
           \<or> message (JsError (Some ''API_KEY_REQUIRED'')) = Some ''API_KEY_INVALID''"
    by simp
  show ?thesis
    using upscale_credential_failure [OF t u m] t u
    by (simp add: afterFirstRun_eq requestApiKeySelection_def noKey_def demoStep_def newStep_def)
qed

text \<open>
  Claim C7. In every state the application reaches, \<^verbatim>\<open>handleUpscale\<close> returns at once,
  with the state as it was and no call made, when no step has the id, when the step with
  the id holds no image, and when that step is \<open>UPSCALING\<close>.
\<close>

theorem upscale_refused:
  assumes "reachable s"
      and "i \<notin> set (ids (steps s))
           \<or> (\<exists>k<length (steps s). step_id (steps s ! k) = i
                 \<and> (imageBase64 (steps s ! k) = None \<or> status (steps s ! k) = UPSCALING))"
  shows "handleUpscale r i s = (s, []) \<and> fire (HandleUpscale i) s = s"
proof -
  have "upscaleTarget i s = None"
    using assms(2)
  proof
    assume "i \<notin> set (ids (steps s))"
    then show ?thesis by (rule upscaleTarget_absent)
  next
    assume "\<exists>k<length (steps s). step_id (steps s ! k) = i
                 \<and> (imageBase64 (steps s ! k) = None \<or> status (steps s ! k) = UPSCALING)"
    then obtain k where k: "k < length (steps s)" "step_id (steps s ! k) = i"
      "imageBase64 (steps s ! k) = None \<or> status (steps s ! k) = UPSCALING"
      by blast
    show ?thesis
      using upscaleTarget_nth [OF reachable_distinct [OF assms(1)] k(1)] k(2,3) by auto
  qed
  then show ?thesis by (simp add: upscaleTarget_None)
qed

theorem upscale_refused_witness:
  "reachable afterFirstRun \<and> reachable whileUpscaling
   \<and> ''z'' \<notin> set (ids (steps afterFirstRun))
   \<and> step_id (steps afterFirstRun ! 1) = ''b'' \<and> imageBase64 (steps afterFirstRun ! 1) = None
   \<and> step_id (steps whileUpscaling ! 0) = ''a'' \<and> status (steps whileUpscaling ! 0) = UPSCALING
   \<and> handleUpscale (answers ''U'') ''z'' afterFirstRun = (afterFirstRun, [])
   \<and> handleUpscale (answers ''U'') ''b'' afterFirstRun = (afterFirstRun, [])
   \<and> handleUpscale (answers ''U'') ''a'' whileUpscaling = (whileUpscaling, [])
   \<and> fire (HandleUpscale ''a'') whileUpscaling = whileUpscaling"
proof -
  have z: "''z'' \<notin> set (ids (steps afterFirstRun))"
    by (simp add: afterFirstRun_eq ids_def demoStep_def newStep_def)
  have b: "step_id (steps afterFirstRun ! 1) = ''b''" "imageBase64 (steps afterFirstRun ! 1) = None"
    "1 < length (steps afterFirstRun)"
    by (simp_all add: afterFirstRun_eq demoStep_def newStep_def)
  have a: "step_id (steps whileUpscaling ! 0) = ''a''" "status (steps whileUpscaling ! 0) = UPSCALING"
    "0 < length (steps whileUpscaling)"
    by (simp_all add: whileUpscaling_eq)
  have hb: "''b'' \<notin> set (ids (steps afterFirstRun))
           \<or> (\<exists>k<length (steps afterFirstRun). step_id (steps afterFirstRun ! k) = ''b''
                 \<and> (imageBase64 (steps afterFirstRun ! k) = None
                     \<or> status (steps afterFirstRun ! k) = UPSCALING))"
    using b by blast
  have ha: "''a'' \<notin> set (ids (steps whileUpscaling))
           \<or> (\<exists>k<length (steps whileUpscaling). step_id (steps whileUpscaling ! k) = ''a''
                 \<and> (imageBase64 (steps whileUpscaling ! k) = None
                     \<or> status (steps whileUpscaling ! k) = UPSCALING))"
    using a by blast
  show ?thesis
    using upscale_refused [OF afterFirstRun_reachable disjI1 [OF z], of "answers ''U''"]
      upscale_refused [OF afterFirstRun_reachable hb, of "answers ''U''"]
      upscale_refused [OF whileUpscaling_reachable ha, of "answers ''U''"]
      afterFirstRun_reachable whileUpscaling_reachable z a b
    by simp
qed

section \<open>The step store\<close>

text \<open>
  Claim C8. The flow starts with one step; \<^verbatim>\<open>addStep\<close> adds one; \<^verbatim>\<open>removeStep\<close> leaves
  a flow of one step as it is; no event other than \<^verbatim>\<open>removeStep\<close> makes the flow
  shorter; and every state the application reaches has at least one step.
\<close>

theorem flow_never_empty:
  "length (steps (initialSys uuid)) = 1
   \<and> length (steps (addStep uuid a)) = length (steps a) + 1
   \<and> (length (steps a) = 1 \<longrightarrow> removeStep i a = a)
   \<and> ((\<forall>j. e \<noteq> RemoveStep j) \<longrightarrow> length (steps s) \<le> length (steps (fire e s)))
   \<and> (reachable s \<longrightarrow> 1 \<le> length (steps s))"
proof -
  have "(\<forall>j. e \<noteq> RemoveStep j) \<longrightarrow> length (steps s) \<le> length (steps (fire e s))"
    using fire_length [of e s] by blast
  moreover have "reachable s \<longrightarrow> 1 \<le> length (steps s)"
    using reachable_nonempty by blast
  ultimately show ?thesis
    by (simp add: initialSys_def addStep_def removeStep_def)
qed

theorem flow_never_empty_witness:
  "length (steps (initialSys ''a'')) = 1
   \<and> removeStep ''a'' (initialSys ''a'') = initialSys ''a''
   \<and> reachable (run [RemoveStep ''a'', RemoveStep ''a''] (initialSys ''a''))
   \<and> length (steps (run [RemoveStep ''a'', RemoveStep ''a''] (initialSys ''a''))) = 1
   \<and> reachable afterFirstRun \<and> length (steps afterFirstRun) = 2
   \<and> length (steps (fire (RemoveStep ''a'') afterFirstRun)) = 1
   \<and> fire (RemoveStep ''b'') (fire (RemoveStep ''a'') afterFirstRun)
       = fire (RemoveStep ''a'') afterFirstRun"
proof -
  let ?s = "run [RemoveStep ''a'', RemoveStep ''a''] (initialSys ''a'')"
  let ?t = "fire (RemoveStep ''a'') afterFirstRun"
  have r: "reachable ?s"
    by (rule reachable_run [OF reachable.init]) simp
  have l: "length (steps (initialSys ''a'')) = 1 \<and> length (steps ?t) = 1"
    by (simp add: afterFirstRun_eq sys_eval demoStep_def newStep_def)
  have t: "reachable ?t"
    by (rule reachable.step [OF afterFirstRun_reachable]) simp
  show ?thesis
    using flow_never_empty [of "''a''" "initialSys ''a''" "''a''" "AddStep ''a''" ?s]
      flow_never_empty [of "''a''" ?t "''b''" "AddStep ''a''" ?t]
      r l t afterFirstRun_reachable
    by (simp add: afterFirstRun_eq sys_eval demoStep_def newStep_def)
qed

text \<open>
  Claim C9. When the upscale succeeds, the step with the id gets status \<open>COMPLETED\<close>, the
  upscaled image and \<open>isUpscaled = true\<close>, and keeps its \<open>error\<close> field: a message left
  by an earlier failed attempt is still there.
\<close>

theorem upscale_success_keeps_error:
  assumes "upscaleTarget i a = Some step"
      and "upscaleFlowImage r (prompt step) (the (imageBase64 step)) (aspectRatio a) = Inr up"
  shows "steps (fst (handleUpscale r i a))
           = map (\<lambda>x. if step_id x = i
                    then x\<lparr>status := COMPLETED, imageBase64 := Some up, isUpscaled := Some True\<rparr>
                    else x) (steps a)
       \<and> map error (steps (fst (handleUpscale r i a))) = map error (steps a)
       \<and> (\<forall>k<length (steps a). step_id (steps a ! k) = i \<longrightarrow>
             steps (fst (handleUpscale r i a)) ! k
               = (steps a ! k)\<lparr>status := COMPLETED, imageBase64 := Some up,
                                isUpscaled := Some True\<rparr>
             \<and> error (steps (fst (handleUpscale r i a)) ! k) = error (steps a ! k))"
proof -
  have s: "steps (fst (handleUpscale r i a))
           = map (\<lambda>x. if step_id x = i
                    then x\<lparr>status := COMPLETED, imageBase64 := Some up, isUpscaled := Some True\<rparr>
                    else x) (steps a)"
    unfolding handleUpscale_run [OF assms(1)] assms(2)
    by (simp add: upscaleReturns_def setUpscaling_def)
  have e: "map error (steps (fst (handleUpscale r i a))) = map error (steps a)"
    unfolding s by simp
  show ?thesis using s e by simp
qed

theorem upscale_success_keeps_error_witness:
  "upscaleTarget ''a'' afterFailedUpscale = Some (steps afterFailedUpscale ! 0)
   \<and> upscaleFlowImage (answers ''U'') ''empty room'' ''A'' AR_16_9 = Inr ''U''
   \<and> error (steps afterFailedUpscale ! 0) = Some ''Upscale failed. Please try again.''
   \<and> steps (fst (handleUpscale (answers ''U'') ''a'' afterFailedUpscale))
       = [\<lparr> step_id = ''a'', prompt = ''empty room'', status = COMPLETED,
            imageBase64 = Some ''U'', isUpscaled = Some True,
            error = Some ''Upscale failed. Please try again.'' \<rparr>]"
proof -
  have t: "upscaleTarget ''a'' afterFailedUpscale = Some (steps afterFailedUpscale ! 0)"
    by (simp add: afterFailedUpscale_eq upscaleTarget_def)
  have u: "upscaleFlowImage (answers ''U'') (prompt (steps afterFailedUpscale ! 0))
             (the (imageBase64 (steps afterFailedUpscale ! 0))) (aspectRatio afterFailedUpscale)
           = Inr ''U''"
    by (simp add: afterFailedUpscale_eq sys_eval walk_eval)
  show ?thesis
    using upscale_success_keeps_error [OF t u] t u
    by (simp add: afterFailedUpscale_eq)
qed

text \<open>
  Claim C10. The step whose generation fails differs from what it was before the attempt
  in its \<open>status\<close> and its \<open>error\<close> only: its image and its \<open>isUpscaled\<close> flag (and
  its id and prompt) are the ones it had.
\<close>

theorem generation_failure_keeps_image:
  assumes "GenerateCall i p ref ar \<in> set (snd (generateImages rs a))"
      and "generateFlowImage (rs i) p ref ar = Inl err"
  shows "steps (fst (generateImages rs a)) ! i
           = (steps a ! i)\<lparr>status := ERROR, error := message err\<rparr>
       \<and> imageBase64 (steps (fst (generateImages rs a)) ! i) = imageBase64 (steps a ! i)
       \<and> isUpscaled (steps (fst (generateImages rs a)) ! i) = isUpscaled (steps a ! i)"
proof -
  let ?w = "walk rs (aspectRatio a) 0 (steps a) None (steps a) []"
  have np: "\<not> isProcessing a" using assms(1) by (auto simp: generateImages_def)
  then have g: "generateImages rs a = (a\<lparr>steps := fst ?w, isProcessing := False\<rparr>, snd ?w)"
    by (simp add: generateImages_def split: prod.split)
  have mem: "GenerateCall i p ref ar \<in> set (snd ?w)" using assms(1) unfolding g by simp
  note F = walk_failure [OF mem assms(2)]
  show ?thesis unfolding g using F by simp
qed

theorem generation_failure_keeps_image_witness:
  "GenerateCall 0 ''empty room'' None AR_9_16
     \<in> set (snd (generateImages (\<lambda>_. throws ''quota'')
          \<lparr>steps = [upscalingStep], isProcessing = False, aspectRatio = AR_9_16\<rparr>))
   \<and> generateFlowImage (throws ''quota'') ''empty room'' None AR_9_16
       = Inl (JsError (Some ''quota''))
   \<and> steps (fst (generateImages (\<lambda>_. throws ''quota'')
          \<lparr>steps = [upscalingStep], isProcessing = False, aspectRatio = AR_9_16\<rparr>)) ! 0
       = \<lparr> step_id = ''a'', prompt = ''empty room'', status = ERROR,
            imageBase64 = Some ''A'', isUpscaled = Some False, error = Some ''quota'' \<rparr>"
proof -
  let ?a = "\<lparr>steps = [upscalingStep], isProcessing = False, aspectRatio = AR_9_16\<rparr>"
  have h1: "GenerateCall 0 ''empty room'' None AR_9_16
              \<in> set (snd (generateImages (\<lambda>_. throws ''quota'') ?a))"
    by (simp add: walk_eval upscalingStep_def)
  have h2: "generateFlowImage ((\<lambda>_. throws ''quota'') (0::nat)) ''empty room'' None AR_9_16
              = Inl (JsError (Some ''quota''))"
    by (simp add: walk_eval)
  show ?thesis
    using generation_failure_keeps_image [OF h1 h2] h1 h2 by (simp add: upscalingStep_def)
qed

end
